theory Spec2Isabelle
  imports Main "HOL-Library.Sublist"
begin

section \<open>Data model of \<open>async.py\<close>\<close>

text \<open>
  Points in time (\<open>datetime\<close>) and durations (\<open>timedelta\<close>) are integers counting
  microseconds. Futures and generator objects are shared mutable objects; they are
  referred to by their position in a store. The field \<open>when\<close> of an event is written
  \<open>when'\<close>, the attribute \<open>_result\<close> of a future \<open>result_attr\<close> (absent until
  \<open>set_result\<close> stores a value) and the method \<open>done\<close> \<open>Future_done\<close>.
\<close>

type_synonym time = int
type_synonym fid = nat
type_synonym cid = nat

datatype FutureStatus = DONE | SCHEDULED | CANCELLED

text \<open>The Python values that flow through callbacks, futures and \<open>run\<close>.\<close>

datatype val = VNone | VInt int | VFuture fid

text \<open>
  The callables that the module stores in a \<open>Callback\<close>: the bound method \<open>coro.send\<close>
  of a generator object (line 91) and the bound method \<open>future.set_result\<close> (line 127).
\<close>

datatype callable = coro_send cid | future_set_result fid

record Callback =
  fn :: callable
  args :: "val list"

record Event =
  callback :: Callback
  when' :: "time option"

record Future =
  callbacks :: "Callback list"
  status :: FutureStatus
  result_attr :: "val option"

text \<open>
  \<open>Loop\<close> holds the list of pending events. \<open>datetime.now()\<close> reads an external clock:
  \<open>clock\<close> is the sequence of the values it returns, \<open>reads\<close> the number of readings
  made so far. Blocking in \<open>time.sleep\<close> shows only in the later readings.
\<close>

record Loop =
  events :: "Event list"

record env =
  current_loop :: Loop
  clock :: "nat \<Rightarrow> time"
  reads :: nat

definition now :: "'a env_scheme \<Rightarrow> time" where
  "now w = clock w (reads w)"

definition tick :: "'a env_scheme \<Rightarrow> 'a env_scheme" where
  "tick w = w\<lparr>reads := Suc (reads w)\<rparr>"

definition append_event :: "Event \<Rightarrow> 'a env_scheme \<Rightarrow> 'a env_scheme" where
  "append_event e w = w\<lparr>current_loop := (current_loop w)\<lparr>events := events (current_loop w) @ [e]\<rparr>\<rparr>"

definition call_soon :: "Callback \<Rightarrow> 'a env_scheme \<Rightarrow> 'a env_scheme" where
  "call_soon c w = tick (append_event \<lparr>callback = c, when' = Some (now w)\<rparr> w)"

definition call_later :: "Callback \<Rightarrow> time option \<Rightarrow> 'a env_scheme \<Rightarrow> 'a env_scheme" where
  "call_later c t w = append_event \<lparr>callback = c, when' = t\<rparr> w"

section \<open>Future\<close>

definition create_future :: Future where
  "create_future = \<lparr>callbacks = [], status = SCHEDULED, result_attr = None\<rparr>"

definition result :: "Future \<Rightarrow> val" where
  "result f = (case result_attr f of None \<Rightarrow> VNone | Some v \<Rightarrow> v)"

definition Future_done :: "Future \<Rightarrow> bool" where
  "Future_done f = (status f \<noteq> SCHEDULED)"

definition schedule_callbacks :: "Future \<Rightarrow> 'a env_scheme \<Rightarrow> 'a env_scheme" where
  "schedule_callbacks f w = fold call_soon (callbacks f) w"

definition set_result :: "val \<Rightarrow> Future \<Rightarrow> 'a env_scheme \<Rightarrow> Future \<times> 'a env_scheme" where
  "set_result v f w =
     (let f' = f\<lparr>result_attr := Some v, status := DONE\<rparr>
      in (f', schedule_callbacks f' w))"

definition cancel :: "Future \<Rightarrow> Future" where
  "cancel f = f\<lparr>status := CANCELLED\<rparr>"

definition add_done_callback :: "Callback \<Rightarrow> Future \<Rightarrow> Future" where
  "add_done_callback c f = f\<lparr>callbacks := callbacks f @ [c]\<rparr>"

text \<open>
  \<open>__iter__\<close> is a generator function: its body runs when the generator is first
  advanced. \<open>Future_iter self f\<close> is what that first advance does for the future \<open>f\<close>
  stored at \<open>self\<close>: it either finishes at once with a value (\<open>return\<close>, seen by the
  caller as the value of \<open>yield from\<close>) or suspends, handing a value to the driver.
\<close>

datatype iter_outcome = Returns val | Yields val

definition Future_iter :: "fid \<Rightarrow> Future \<Rightarrow> iter_outcome" where
  "Future_iter self f =
     (if status f = DONE then Returns (result f)
      else if status f = CANCELLED then Returns VNone
      else Yields (VFuture self))"

subsection \<open>Sequences of method calls on one future\<close>

datatype call = set_result_call val | cancel_call | add_done_callback_call Callback

fun apply_call :: "call \<Rightarrow> Future \<times> 'a env_scheme \<Rightarrow> Future \<times> 'a env_scheme" where
  "apply_call (set_result_call v) (f, w) = set_result v f w"
| "apply_call cancel_call (f, w) = (cancel f, w)"
| "apply_call (add_done_callback_call c) (f, w) = (add_done_callback c f, w)"

definition apply_calls :: "call list \<Rightarrow> Future \<times> 'a env_scheme \<Rightarrow> Future \<times> 'a env_scheme" where
  "apply_calls cs s = fold apply_call cs s"

fun is_set_result :: "call \<Rightarrow> bool" where
  "is_set_result (set_result_call v) = True"
| "is_set_result c = False"

text \<open>An environment to evaluate examples in: an empty loop, the clock reading \<open>n\<close> at its \<open>n\<close>-th reading.\<close>

definition env0 :: env where
  "env0 = \<lparr>current_loop = \<lparr>events = []\<rparr>, clock = int, reads = 0\<rparr>"

text \<open>Two callbacks for the examples.\<close>

definition cb1 :: Callback where
  "cb1 = \<lparr>fn = coro_send 0, args = [VNone]\<rparr>"

definition cb2 :: Callback where
  "cb2 = \<lparr>fn = coro_send 1, args = [VNone]\<rparr>"


section \<open>Generators\<close>

text \<open>
  The exceptions that can leave a callback: \<open>TypeError\<close> and \<open>IndexError\<close> of the interpreter,
  \<open>Uncaught\<close> for an exception raised by a generator's own code, \<open>Dangling\<close> for a reference
  to an object that is not in the store (a Python reference keeps its object alive, so this
  is only there to make every lookup total).
\<close>

datatype error = TypeError | IndexError | Uncaught | Dangling

text \<open>
  \<open>run\<close> takes arbitrary generators. A generator body is a tree of the steps it takes
  between two suspensions: \<open>return\<close>, \<open>yield\<close> (the continuation receives the value sent
  in), \<open>raise\<close>, and the calls into this module: \<open>create_future()\<close>,
  \<open>current_loop.call_soon(c)\<close>, \<open>current_loop.call_later(c, when)\<close>,
  \<open>current_loop.call_later(c, datetime.now() + timedelta(d))\<close>, the methods of a future,
  and \<open>x = yield from future\<close>.
\<close>

datatype gen =
    Return val
  | Yield val "val \<Rightarrow> gen"
  | Raise
  | CreateFuture "fid \<Rightarrow> gen"
  | CallSoon Callback gen
  | CallLater Callback "time option" gen
  | CallLaterAfter Callback int gen
  | SetResult fid val gen
  | Cancel fid gen
  | AddDoneCallback fid Callback gen
  | YieldFrom fid "val \<Rightarrow> gen"
  | GetResult fid "val \<Rightarrow> gen"

text \<open>A generator object: not yet started, suspended at a \<open>yield\<close>, or finished.\<close>

datatype generator = Created gen | Suspended "val \<Rightarrow> gen" | Exhausted

text \<open>The store: the loop and the clock, the futures and the generator objects.\<close>

record world = env +
  futures :: "Future list"
  coros :: "generator list"

text \<open>The methods of \<open>Future\<close> on the future stored at \<open>self\<close>.\<close>

definition Future_set_result :: "fid \<Rightarrow> val \<Rightarrow> world \<Rightarrow> world" where
  "Future_set_result self v w =
     (case set_result v (futures w ! self) w of
        (f', w') \<Rightarrow> w'\<lparr>futures := (futures w')[self := f']\<rparr>)"

definition Future_cancel :: "fid \<Rightarrow> world \<Rightarrow> world" where
  "Future_cancel self w = w\<lparr>futures := (futures w)[self := cancel (futures w ! self)]\<rparr>"

definition Future_add_done_callback :: "fid \<Rightarrow> Callback \<Rightarrow> world \<Rightarrow> world" where
  "Future_add_done_callback self c w =
     w\<lparr>futures := (futures w)[self := add_done_callback c (futures w ! self)]\<rparr>"

text \<open>
  \<open>advance g w\<close> runs the body \<open>g\<close> up to its next \<open>yield\<close>, its \<open>return\<close> or an
  exception. In \<open>yield from future\<close> the iterator of the future is advanced once; when it
  suspends, the generator suspends with it, and when the generator is resumed the iterator
  ends (its body has nothing after \<open>yield self\<close>), so \<open>yield from\<close> evaluates to \<open>None\<close>.
\<close>

datatype pause = Yielded val "val \<Rightarrow> gen" | Finished val | Failed error

primrec advance :: "gen \<Rightarrow> world \<Rightarrow> pause \<times> world" where
  "advance (Return v) w = (Finished v, w)"
| "advance (Yield v k) w = (Yielded v k, w)"
| "advance Raise w = (Failed Uncaught, w)"
| "advance (CreateFuture k) w =
     advance (k (length (futures w))) (w\<lparr>futures := futures w @ [create_future]\<rparr>)"
| "advance (CallSoon c g) w = advance g (call_soon c w)"
| "advance (CallLater c t g) w = advance g (call_later c t w)"
| "advance (CallLaterAfter c d g) w = advance g (call_later c (Some (now w + d)) (tick w))"
| "advance (SetResult f v g) w =
     (if f < length (futures w) then advance g (Future_set_result f v w)
      else (Failed Dangling, w))"
| "advance (Cancel f g) w =
     (if f < length (futures w) then advance g (Future_cancel f w)
      else (Failed Dangling, w))"
| "advance (AddDoneCallback f c g) w =
     (if f < length (futures w) then advance g (Future_add_done_callback f c w)
      else (Failed Dangling, w))"
| "advance (YieldFrom f k) w =
     (if f < length (futures w) then
        (case Future_iter f (futures w ! f) of
           Returns v \<Rightarrow> advance (k v) w
         | Yields v \<Rightarrow> (Yielded v (\<lambda>sent. k VNone), w))
      else (Failed Dangling, w))"
| "advance (GetResult f k) w =
     (if f < length (futures w) then advance (k (result (futures w ! f))) w
      else (Failed Dangling, w))"

text \<open>
  \<open>sleep\<close> (lines 121 to 133); \<open>delay\<close> is the \<open>timedelta\<close> added to \<open>datetime.now()\<close>.
\<close>

definition sleep :: "int \<Rightarrow> val \<Rightarrow> gen" where
  "sleep delay res =
     CreateFuture (\<lambda>future.
       CallLaterAfter \<lparr>fn = future_set_result future, args = [res]\<rparr> delay
         (YieldFrom future (\<lambda>_. GetResult future Return)))"

text \<open>
  What calling a callable does: it returns a value, raises \<open>StopIteration\<close> carrying a
  value, or raises something else. \<open>send\<close> is \<open>generator.send\<close>: a generator that has not
  started accepts only \<open>None\<close>, a finished one raises \<open>StopIteration\<close>.
\<close>

datatype outcome = Returned val | StopIteration val | Raised error

definition resume :: "cid \<Rightarrow> gen \<Rightarrow> world \<Rightarrow> outcome \<times> world" where
  "resume self g w =
     (case advance g w of
        (Yielded v k, w') \<Rightarrow> (Returned v, w'\<lparr>coros := (coros w')[self := Suspended k]\<rparr>)
      | (Finished v, w') \<Rightarrow> (StopIteration v, w'\<lparr>coros := (coros w')[self := Exhausted]\<rparr>)
      | (Failed e, w') \<Rightarrow> (Raised e, w'\<lparr>coros := (coros w')[self := Exhausted]\<rparr>))"

definition send :: "cid \<Rightarrow> val \<Rightarrow> world \<Rightarrow> outcome \<times> world" where
  "send self v w =
     (if self < length (coros w) then
        (case coros w ! self of
           Created g \<Rightarrow> if v = VNone then resume self g w else (Raised TypeError, w)
         | Suspended k \<Rightarrow> resume self (k v) w
         | Exhausted \<Rightarrow> (StopIteration VNone, w))
      else (Raised Dangling, w))"

text \<open>\<open>callback.fn(*callback.args)\<close>: both callables take one argument.\<close>

definition call :: "Callback \<Rightarrow> world \<Rightarrow> outcome \<times> world" where
  "call c w =
     (case args c of
        [v] \<Rightarrow>
          (case fn c of
             coro_send g \<Rightarrow> send g v w
           | future_set_result f \<Rightarrow>
               if f < length (futures w) then (Returned VNone, Future_set_result f v w)
               else (Raised Dangling, w))
      | _ \<Rightarrow> (Raised TypeError, w))"

section \<open>run\<close>

text \<open>
  One pass through the body of the \<open>while\<close> loop (lines 94 to 116) either runs the first
  event, waits because it is not yet due, or is left by an exception. Comparing \<open>None\<close>
  with a \<open>datetime\<close> raises \<open>TypeError\<close>: in the sort when the list has two or more
  events, in line 98 when it has one. Python's sort is stable, as \<open>sort_key\<close> is.
  Output (\<open>print\<close>) is not modelled; \<open>time.sleep\<close> only lets time pass, after the
  two readings of the clock in lines 114 and 116. A call only appends to the list of
  events, so the list is not empty when line 111 deletes its first element.
\<close>

datatype step = Ran Event world "val list" | Waited world | Aborted error

definition sort_events :: "world \<Rightarrow> world" where
  "sort_events w =
     w\<lparr>current_loop := (current_loop w)
         \<lparr>events := sort_key (\<lambda>e. the (when' e)) (events (current_loop w))\<rparr>\<rparr>"

definition del_first_event :: "world \<Rightarrow> world" where
  "del_first_event w = w\<lparr>current_loop := (current_loop w)\<lparr>events := tl (events (current_loop w))\<rparr>\<rparr>"

fun raised :: "outcome \<Rightarrow> error option" where
  "raised (Raised e) = Some e"
| "raised (Returned v) = None"
| "raised (StopIteration v) = None"

fun value_of :: "outcome \<Rightarrow> val" where
  "value_of (Returned v) = v"
| "value_of (StopIteration v) = v"
| "value_of (Raised e) = VNone"

fun isinstance_Future :: "val \<Rightarrow> bool" where
  "isinstance_Future (VFuture f) = True"
| "isinstance_Future v = False"

fun the_Future :: "val \<Rightarrow> fid" where
  "the_Future (VFuture f) = f"
| "the_Future v = 0"

definition iteration :: "world \<Rightarrow> val list \<Rightarrow> step" where
  "iteration w results =
     (if list_ex (\<lambda>e. when' e = None) (events (current_loop w)) then Aborted TypeError
      else
        let w1 = sort_events w;
            now = clock w1 (reads w1);
            w2 = tick w1
        in (case events (current_loop w2) of
              [] \<Rightarrow> Aborted IndexError
            | current_event # _ \<Rightarrow>
                if the (when' current_event) \<le> now then
                  (case call (callback current_event) w2 of
                     (out, w3) \<Rightarrow>
                       (case raised out of
                          Some e \<Rightarrow> Aborted e
                        | None \<Rightarrow>
                            let res_or_fut = value_of out in
                            if isinstance_Future res_or_fut then
                              if the_Future res_or_fut < length (futures w3) then
                                Ran current_event
                                  (del_first_event
                                    (Future_add_done_callback (the_Future res_or_fut)
                                      \<lparr>fn = fn (callback current_event),
                                       args = args (callback current_event)\<rparr> w3))
                                  results
                              else Aborted Dangling
                            else if res_or_fut = VNone then
                              Ran current_event (del_first_event w3) (results @ [res_or_fut])
                            else Ran current_event (del_first_event w3) results))
                else Waited (tick (tick w2))))"

text \<open>
  The \<open>while\<close> loop, with fuel: \<open>None\<close> means that the loop has not ended within
  \<open>fuel\<close> iterations.
\<close>

fun run_loop :: "nat \<Rightarrow> world \<Rightarrow> val list \<Rightarrow> (error + val list \<times> world) option" where
  "run_loop fuel w results =
     (if events (current_loop w) = [] then Some (Inr (results, w))
      else
        (case fuel of
           0 \<Rightarrow> None
         | Suc n \<Rightarrow>
             (case iteration w results of
                Aborted e \<Rightarrow> Some (Inl e)
              | Waited w' \<Rightarrow> run_loop n w' results
              | Ran e w' results' \<Rightarrow> run_loop n w' results')))"

text \<open>
  \<open>run\<close> (lines 84 to 118) gets the generator objects by reference. The bare \<open>return\<close>
  of line 86 returns \<open>None\<close>, line 118 returns the list.
\<close>

datatype returned = ReturnsNone | ReturnsList "val list"

definition seed :: "cid list \<Rightarrow> world \<Rightarrow> world" where
  "seed coros_arg w = fold (\<lambda>coro. call_soon \<lparr>fn = coro_send coro, args = [VNone]\<rparr>) coros_arg w"

definition run :: "nat \<Rightarrow> cid list \<Rightarrow> world \<Rightarrow> (error + returned \<times> world) option" where
  "run fuel coros_arg w =
     (if length coros_arg \<le> 0 then Some (Inr (ReturnsNone, w))
      else
        (case run_loop fuel (seed coros_arg w) [] of
           None \<Rightarrow> None
         | Some (Inl e) \<Rightarrow> Some (Inl e)
         | Some (Inr (results, w')) \<Rightarrow> Some (Inr (ReturnsList results, w'))))"

text \<open>\<open>completes n w results\<close>: the loop started in \<open>w\<close> ends within \<open>n\<close> iterations, without an exception.\<close>

definition completes :: "nat \<Rightarrow> world \<Rightarrow> val list \<Rightarrow> bool" where
  "completes n w results = (case run_loop n w results of Some (Inr r) \<Rightarrow> True | _ \<Rightarrow> False)"

subsection \<open>What a run of the loop does, iteration by iteration\<close>

text \<open>
  \<open>executed n w results\<close> lists the events run in the first \<open>n\<close> iterations of the loop
  started in \<open>w\<close>, in the order in which they ran; \<open>scheduled n w results\<close> lists the
  events appended to the registry during these iterations, in the order of appending.
\<close>

fun executed :: "nat \<Rightarrow> world \<Rightarrow> val list \<Rightarrow> Event list" where
  "executed 0 w results = []"
| "executed (Suc n) w results =
     (if events (current_loop w) = [] then []
      else
        (case iteration w results of
           Aborted e \<Rightarrow> []
         | Waited w' \<Rightarrow> executed n w' results
         | Ran e w' results' \<Rightarrow> e # executed n w' results'))"

fun scheduled :: "nat \<Rightarrow> world \<Rightarrow> val list \<Rightarrow> Event list" where
  "scheduled 0 w results = []"
| "scheduled (Suc n) w results =
     (if events (current_loop w) = [] then []
      else
        (case iteration w results of
           Aborted e \<Rightarrow> []
         | Waited w' \<Rightarrow> scheduled n w' results
         | Ran e w' results' \<Rightarrow>
             drop (length (events (current_loop w)) - 1) (events (current_loop w'))
               @ scheduled n w' results'))"

text \<open>
  A punctual generator schedules only through \<open>call_soon\<close>, \<open>set_result\<close> and
  \<open>call_later\<close> at the current time plus a delay that is not negative.
\<close>

primrec punctual :: "gen \<Rightarrow> bool" where
  "punctual (Return v) = True"
| "punctual (Yield v k) = (\<forall>sent. punctual (k sent))"
| "punctual Raise = True"
| "punctual (CreateFuture k) = (\<forall>f. punctual (k f))"
| "punctual (CallSoon c g) = punctual g"
| "punctual (CallLater c t g) = False"
| "punctual (CallLaterAfter c d g) = (0 \<le> d \<and> punctual g)"
| "punctual (SetResult f v g) = punctual g"
| "punctual (Cancel f g) = punctual g"
| "punctual (AddDoneCallback f c g) = punctual g"
| "punctual (YieldFrom f k) = (\<forall>v. punctual (k v))"
| "punctual (GetResult f k) = (\<forall>v. punctual (k v))"

fun punctual_generator :: "generator \<Rightarrow> bool" where
  "punctual_generator (Created g) = punctual g"
| "punctual_generator (Suspended k) = (\<forall>sent. punctual (k sent))"
| "punctual_generator Exhausted = True"

fun punctual_pause :: "pause \<Rightarrow> bool" where
  "punctual_pause (Yielded v k) = (\<forall>sent. punctual (k sent))"
| "punctual_pause p = True"

text \<open>
  Worlds for the examples: an empty loop, no futures, the clock reading \<open>n\<close> at its \<open>n\<close>-th
  reading. \<open>three_sleeps\<close> is the state in which \<open>run(sleep(5), sleep(2), sleep(2, 4))\<close>
  enters its loop; \<open>yields_5\<close> holds one generator, of \<open>def g(): yield 5; return 6\<close>.
\<close>

definition world0 :: "generator list \<Rightarrow> world" where
  "world0 gs = \<lparr>current_loop = \<lparr>events = []\<rparr>, clock = int, reads = 0, futures = [], coros = gs\<rparr>"

definition three_sleeps :: world where
  "three_sleeps = seed [0, 1, 2]
     (world0 [Created (sleep 5 VNone), Created (sleep 2 VNone), Created (sleep 2 (VInt 4))])"

definition yields_5 :: world where
  "yields_5 = world0 [Created (Yield (VInt 5) (\<lambda>sent. Return (VInt 6)))]"

text \<open>
  \<open>late lo e\<close>: the event \<open>e\<close> is due at \<open>lo\<close> or later. \<open>timely lo w\<close>: the clock of \<open>w\<close>
  never goes back, its next reading is \<open>lo\<close> or later, and every pending event is due at \<open>lo\<close>
  or later.
\<close>

definition late :: "time \<Rightarrow> Event \<Rightarrow> bool" where
  "late lo e = (case when' e of None \<Rightarrow> False | Some t \<Rightarrow> lo \<le> t)"

definition timely :: "time \<Rightarrow> world \<Rightarrow> bool" where
  "timely lo w = (mono (clock w) \<and> lo \<le> clock w (reads w)
                   \<and> list_all (late lo) (events (current_loop w)))"

section \<open>Properties of Future\<close>

lemma call_soon_events:
  "events (current_loop (call_soon c w)) =
     events (current_loop w) @ [\<lparr>callback = c, when' = Some (clock w (reads w))\<rparr>]"
  by (simp add: call_soon_def tick_def append_event_def now_def)

lemma call_soon_reads: "reads (call_soon c w) = Suc (reads w)"
  by (simp add: call_soon_def tick_def append_event_def)

lemma call_soon_clock: "clock (call_soon c w) = clock w"
  by (simp add: call_soon_def tick_def append_event_def)

lemma reads_fold_call_soon: "reads (fold call_soon cs w) = reads w + length cs"
  by (induction cs arbitrary: w) (simp_all add: call_soon_reads)

lemma clock_fold_call_soon: "clock (fold call_soon cs w) = clock w"
  by (induction cs arbitrary: w) (simp_all add: call_soon_clock)

lemma events_fold_call_soon:
  "events (current_loop (fold call_soon cs w)) =
     events (current_loop w) @
       map (\<lambda>i. \<lparr>callback = cs ! i, when' = Some (clock w (reads w + i))\<rparr>) [0..<length cs]"
proof (induction cs arbitrary: w rule: rev_induct)
  case Nil
  show ?case by simp
next
  case (snoc c cs)
  have "map (\<lambda>i. \<lparr>callback = (cs @ [c]) ! i, when' = Some (clock w (reads w + i))\<rparr>) [0..<length cs]
      = map (\<lambda>i. \<lparr>callback = cs ! i, when' = Some (clock w (reads w + i))\<rparr>) [0..<length cs]"
    by (rule map_cong) (simp_all add: nth_append)
  then show ?case
    by (simp add: snoc.IH call_soon_events reads_fold_call_soon clock_fold_call_soon)
qed

lemma callbacks_fold_call_soon:
  "map callback (events (current_loop (fold call_soon cs w))) =
     map callback (events (current_loop w)) @ cs"
  by (induction cs arbitrary: w rule: rev_induct) (simp_all add: call_soon_events)

text \<open>
  Claim C5. On a future whose status is SCHEDULED, \<open>set_result v\<close> stores \<open>v\<close> as the result,
  sets the status to DONE and appends to the loop one event per entry of the callbacks list,
  in the order of the list, each stamped with its own reading of the clock (\<open>call_soon\<close>);
  nothing else is appended and the callbacks list itself is kept.
\<close>

theorem set_result_schedules_callbacks:
  assumes "status f = SCHEDULED" and "set_result v f w = (f', w')"
  shows "result f' = v \<and> status f' = DONE \<and> callbacks f' = callbacks f
     \<and> events (current_loop w') = events (current_loop w) @
          map (\<lambda>i. \<lparr>callback = callbacks f ! i, when' = Some (clock w (reads w + i))\<rparr>)
            [0..<length (callbacks f)]
     \<and> map callback (events (current_loop w')) = map callback (events (current_loop w)) @ callbacks f
     \<and> reads w' = reads w + length (callbacks f)"
proof -
  from assms(2) have f': "f' = f\<lparr>result_attr := Some v, status := DONE\<rparr>"
    and w': "w' = fold call_soon (callbacks f) w"
    by (simp_all add: set_result_def schedule_callbacks_def Let_def)
  have "result f' = v" "status f' = DONE" "callbacks f' = callbacks f"
    by (simp_all add: f' result_def)
  moreover have "events (current_loop w') = events (current_loop w) @
      map (\<lambda>i. \<lparr>callback = callbacks f ! i, when' = Some (clock w (reads w + i))\<rparr>)
        [0..<length (callbacks f)]"
    unfolding w' by (rule events_fold_call_soon)
  moreover have "map callback (events (current_loop w')) =
      map callback (events (current_loop w)) @ callbacks f"
    unfolding w' by (rule callbacks_fold_call_soon)
  moreover have "reads w' = reads w + length (callbacks f)"
    unfolding w' by (rule reads_fold_call_soon)
  ultimately show ?thesis by blast
qed

text \<open>C5 at a future with two registered callbacks.\<close>

theorem set_result_schedules_callbacks_witness:
  "status (add_done_callback cb2 (add_done_callback cb1 create_future)) = SCHEDULED
   \<and> result (fst (set_result (VInt 7) (add_done_callback cb2 (add_done_callback cb1 create_future)) env0)) = VInt 7
   \<and> status (fst (set_result (VInt 7) (add_done_callback cb2 (add_done_callback cb1 create_future)) env0)) = DONE
   \<and> events (current_loop (snd (set_result (VInt 7) (add_done_callback cb2 (add_done_callback cb1 create_future)) env0)))
       = [\<lparr>callback = cb1, when' = Some 0\<rparr>, \<lparr>callback = cb2, when' = Some 1\<rparr>]"
proof -
  let ?f = "add_done_callback cb2 (add_done_callback cb1 create_future)"
  have s: "status ?f = SCHEDULED"
    by (simp add: add_done_callback_def create_future_def)
  have c: "callbacks ?f = [cb1, cb2]"
    by (simp add: add_done_callback_def create_future_def)
  have u: "[0..<2] = [0, Suc 0]"
    by (simp add: upt_rec)
  show ?thesis
    using set_result_schedules_callbacks [OF s surjective_pairing, of "VInt 7" env0] s
    by (simp add: c u env0_def)
qed

lemma apply_calls_Nil: "apply_calls [] s = s"
  by (simp add: apply_calls_def)

lemma apply_calls_Cons: "apply_calls (c # cs) s = apply_calls cs (apply_call c s)"
  by (simp add: apply_calls_def)

lemma apply_calls_snoc: "apply_calls (cs @ [c]) s = apply_call c (apply_calls cs s)"
  by (simp add: apply_calls_def)

lemma apply_call_status:
  "status (fst (apply_call c s)) =
     (case c of set_result_call v \<Rightarrow> DONE | cancel_call \<Rightarrow> CANCELLED
              | add_done_callback_call cb \<Rightarrow> status (fst s))"
  by (cases s; cases c) (simp_all add: set_result_def cancel_def add_done_callback_def Let_def)

lemma apply_calls_left_scheduled:
  "status (fst s) \<noteq> SCHEDULED \<Longrightarrow> status (fst (apply_calls cs s)) \<noteq> SCHEDULED"
  by (induction cs rule: rev_induct)
     (simp_all add: apply_calls_Nil apply_calls_snoc apply_call_status split: call.splits)

text \<open>
  Claim C1 as stated fails: \<open>cancel\<close> after \<open>set_result\<close> moves the status from DONE to
  CANCELLED, and \<open>set_result\<close> after \<open>cancel\<close> moves it from CANCELLED to DONE.
\<close>

theorem terminal_status_overwritten_counterexample:
  "status (fst (apply_calls [set_result_call (VInt 1)] (create_future, env0))) = DONE
   \<and> status (fst (apply_calls [set_result_call (VInt 1), cancel_call] (create_future, env0))) = CANCELLED
   \<and> status (fst (apply_calls [cancel_call] (create_future, env0))) = CANCELLED
   \<and> status (fst (apply_calls [cancel_call, set_result_call (VInt 1)] (create_future, env0))) = DONE"
  by (simp add: apply_calls_def set_result_def cancel_def create_future_def
      schedule_callbacks_def Let_def)

text \<open>
  Claim C1, amended. A new future is SCHEDULED. Every \<open>set_result\<close> sets the status to DONE and
  every \<open>cancel\<close> sets it to CANCELLED, whatever it was before; \<open>add_done_callback\<close> keeps it.
  So the status is the one set by the last of these calls, and a future that has left SCHEDULED
  never returns to it.
\<close>

theorem status_follows_last_call:
  "status create_future = SCHEDULED
   \<and> status (fst (apply_calls (cs @ [set_result_call v]) (f, w))) = DONE
   \<and> status (fst (apply_calls (cs @ [cancel_call]) (f, w))) = CANCELLED
   \<and> status (fst (apply_calls (cs @ [add_done_callback_call c]) (f, w))) = status (fst (apply_calls cs (f, w)))
   \<and> (status f \<noteq> SCHEDULED \<longrightarrow> status (fst (apply_calls cs (f, w))) \<noteq> SCHEDULED)"
  using apply_calls_left_scheduled [of "(f, w)" cs]
  by (simp add: apply_calls_snoc apply_call_status create_future_def)

text \<open>C1 amended, at a cancelled future that is then completed and cancelled again.\<close>

theorem status_follows_last_call_witness:
  "status (cancel create_future) \<noteq> SCHEDULED
   \<and> status (fst (apply_calls [set_result_call (VInt 1), cancel_call] (cancel create_future, env0))) \<noteq> SCHEDULED"
  using status_follows_last_call [of "[set_result_call (VInt 1), cancel_call]" VNone "cancel create_future" env0 cb1]
  by (simp add: cancel_def create_future_def)

lemma apply_call_result_attr:
  "result_attr (fst (apply_call c s)) =
     (case c of set_result_call v \<Rightarrow> Some v | _ \<Rightarrow> result_attr (fst s))"
  by (cases s; cases c) (simp_all add: set_result_def cancel_def add_done_callback_def Let_def)

lemma result_attr_apply_calls:
  "(result_attr (fst (apply_calls cs (create_future, w))) \<noteq> None) = list_ex is_set_result cs"
  by (induction cs rule: rev_induct)
     (simp_all add: apply_calls_Nil apply_calls_snoc apply_call_result_attr create_future_def
        split: call.splits)

lemma scheduled_apply_calls:
  "status (fst (apply_calls cs (create_future, w))) = SCHEDULED \<Longrightarrow> \<not> list_ex is_set_result cs"
  by (induction cs rule: rev_induct)
     (simp_all add: apply_calls_Nil apply_calls_snoc apply_call_status split: call.splits)

lemma done_apply_calls:
  "status (fst (apply_calls cs (create_future, w))) = DONE \<Longrightarrow> list_ex is_set_result cs"
  by (induction cs rule: rev_induct)
     (simp_all add: apply_calls_Nil apply_calls_snoc apply_call_status create_future_def
        split: call.splits)

text \<open>
  Claim C4 as stated fails: after \<open>set_result(7)\<close> and \<open>cancel()\<close> the status is CANCELLED
  and the result still reads 7.
\<close>

theorem result_outlives_done_counterexample:
  "status (fst (apply_calls [set_result_call (VInt 7), cancel_call] (create_future, env0))) = CANCELLED
   \<and> result_attr (fst (apply_calls [set_result_call (VInt 7), cancel_call] (create_future, env0))) = Some (VInt 7)
   \<and> result (fst (apply_calls [set_result_call (VInt 7), cancel_call] (create_future, env0))) = VInt 7"
  by (simp add: apply_calls_def set_result_def cancel_def create_future_def
      schedule_callbacks_def result_def Let_def)

text \<open>
  Claim C4, amended. The result of a new future reads \<open>None\<close>; \<open>set_result v\<close> makes it read
  \<open>v\<close>; \<open>cancel\<close> and \<open>add_done_callback\<close> keep it. For a future made by \<open>create_future\<close>
  and any calls on it, a result is stored exactly when \<open>set_result\<close> was called at least once:
  always when the status is DONE, never when it is SCHEDULED (the result then reads \<open>None\<close>).
\<close>

theorem result_stored_iff_set_result_called:
  "result create_future = VNone
   \<and> result (fst (apply_call (set_result_call v) s)) = v
   \<and> result (fst (apply_call cancel_call s)) = result (fst s)
   \<and> result (fst (apply_call (add_done_callback_call c) s)) = result (fst s)
   \<and> (result_attr (fst (apply_calls cs (create_future, w))) \<noteq> None) = list_ex is_set_result cs
   \<and> (status (fst (apply_calls cs (create_future, w))) = DONE
        \<longrightarrow> result_attr (fst (apply_calls cs (create_future, w))) \<noteq> None)
   \<and> (status (fst (apply_calls cs (create_future, w))) = SCHEDULED
        \<longrightarrow> result (fst (apply_calls cs (create_future, w))) = VNone)"
proof -
  have "status (fst (apply_calls cs (create_future, w))) = SCHEDULED
      \<Longrightarrow> result (fst (apply_calls cs (create_future, w))) = VNone"
    using scheduled_apply_calls [of cs w] result_attr_apply_calls [of cs w]
    by (simp add: result_def)
  moreover have "status (fst (apply_calls cs (create_future, w))) = DONE
      \<Longrightarrow> result_attr (fst (apply_calls cs (create_future, w))) \<noteq> None"
    using done_apply_calls [of cs w] result_attr_apply_calls [of cs w] by simp
  moreover have "result create_future = VNone"
    by (simp add: result_def create_future_def)
  moreover have "result (fst (apply_call (set_result_call v) s)) = v"
    "result (fst (apply_call cancel_call s)) = result (fst s)"
    "result (fst (apply_call (add_done_callback_call c) s)) = result (fst s)"
    by (simp_all add: result_def apply_call_result_attr)
  ultimately show ?thesis
    using result_attr_apply_calls [of cs w] by blast
qed

text \<open>C4 amended, at a completed future and at a future that is still SCHEDULED.\<close>

theorem result_stored_iff_set_result_called_witness:
  "status (fst (apply_calls [set_result_call (VInt 7)] (create_future, env0))) = DONE
   \<and> result_attr (fst (apply_calls [set_result_call (VInt 7)] (create_future, env0))) \<noteq> None
   \<and> status (fst (apply_calls [add_done_callback_call cb1] (create_future, env0))) = SCHEDULED
   \<and> result (fst (apply_calls [add_done_callback_call cb1] (create_future, env0))) = VNone"
proof -
  have d: "status (fst (apply_calls [set_result_call (VInt 7)] (create_future, env0))) = DONE"
    by (simp add: apply_calls_def set_result_def Let_def)
  have s: "status (fst (apply_calls [add_done_callback_call cb1] (create_future, env0))) = SCHEDULED"
    by (simp add: apply_calls_def add_done_callback_def create_future_def)
  show ?thesis
    using result_stored_iff_set_result_called [of VNone "(create_future, env0)" cb1 "[set_result_call (VInt 7)]" env0]
      result_stored_iff_set_result_called [of VNone "(create_future, env0)" cb1 "[add_done_callback_call cb1]" env0]
      d s
    by blast
qed

text \<open>
  Claim C7. Advancing the iterator of a future finishes at once with the stored result when the
  status is DONE, finishes at once with \<open>None\<close> when it is CANCELLED, and suspends, yielding
  the future itself, when it is SCHEDULED.
\<close>

theorem Future_iter_outcomes:
  "(status f = DONE \<longrightarrow> Future_iter self f = Returns (result f))
   \<and> (status f = CANCELLED \<longrightarrow> Future_iter self f = Returns VNone)
   \<and> (status f = SCHEDULED \<longrightarrow> Future_iter self f = Yields (VFuture self))"
  by (simp add: Future_iter_def)

text \<open>C7 at a completed, a cancelled and a new future.\<close>

theorem Future_iter_outcomes_witness:
  "status (fst (set_result (VInt 7) create_future env0)) = DONE
   \<and> Future_iter 3 (fst (set_result (VInt 7) create_future env0)) = Returns (VInt 7)
   \<and> status (cancel create_future) = CANCELLED
   \<and> Future_iter 3 (cancel create_future) = Returns VNone
   \<and> status create_future = SCHEDULED
   \<and> Future_iter 3 create_future = Yields (VFuture 3)"
proof -
  have d: "status (fst (set_result (VInt 7) create_future env0)) = DONE"
    and r: "result (fst (set_result (VInt 7) create_future env0)) = VInt 7"
    by (simp_all add: set_result_def result_def Let_def)
  have c: "status (cancel create_future) = CANCELLED"
    by (simp add: cancel_def)
  have s: "status create_future = SCHEDULED"
    by (simp add: create_future_def)
  show ?thesis
    using Future_iter_outcomes [of "fst (set_result (VInt 7) create_future env0)" 3]
      Future_iter_outcomes [of "cancel create_future" 3]
      Future_iter_outcomes [of create_future 3] d r c s
    by simp
qed

text \<open>
  Claim C8. \<open>cancel\<close> sets the status to CANCELLED and keeps the stored result, the callbacks
  list and every other field; after \<open>set_result v\<close> and \<open>cancel\<close> the result still reads \<open>v\<close>.
  On a stored future it leaves the loop, the clock, the generators and the number of futures
  as they are.
\<close>

theorem cancel_changes_status_only:
  "status (cancel f) = CANCELLED
   \<and> result_attr (cancel f) = result_attr f
   \<and> result (cancel f) = result f
   \<and> callbacks (cancel f) = callbacks f
   \<and> Future.more (cancel f) = Future.more f
   \<and> result (cancel (fst (set_result v f w))) = v
   \<and> current_loop (Future_cancel self u) = current_loop u
   \<and> clock (Future_cancel self u) = clock u \<and> reads (Future_cancel self u) = reads u
   \<and> coros (Future_cancel self u) = coros u
   \<and> length (futures (Future_cancel self u)) = length (futures u)"
  by (simp add: cancel_def result_def set_result_def Let_def Future_cancel_def)

lemma apply_calls_no_set_result_env:
  "\<not> list_ex is_set_result cs \<Longrightarrow> snd (apply_calls cs s) = snd s"
proof (induction cs rule: rev_induct)
  case Nil
  show ?case by (simp add: apply_calls_Nil)
next
  case (snoc c cs)
  then show ?case
    by (cases c; cases "apply_calls cs s") (simp_all add: apply_calls_snoc)
qed

lemma apply_calls_callbacks_mono:
  "\<not> list_ex is_set_result cs \<Longrightarrow> c \<in> set (callbacks (fst s))
     \<Longrightarrow> c \<in> set (callbacks (fst (apply_calls cs s)))"
proof (induction cs rule: rev_induct)
  case Nil
  then show ?case by (simp add: apply_calls_Nil)
next
  case (snoc x cs)
  then show ?case
    by (cases x; cases "apply_calls cs s")
       (simp_all add: apply_calls_snoc cancel_def add_done_callback_def)
qed

text \<open>
  Claim C9. After the one \<open>set_result\<close> call on a future, \<open>add_done_callback c\<close> and any later
  calls other than \<open>set_result\<close> leave the loop as \<open>set_result\<close> left it: the events appended
  are those of the callbacks registered before completion, and \<open>c\<close> stays in the callbacks
  list without ever being scheduled.
\<close>

theorem late_callback_never_scheduled:
  assumes "\<not> list_ex is_set_result cs"
  shows "snd (apply_calls (add_done_callback_call c # cs) (set_result v f w)) = snd (set_result v f w)
     \<and> map callback (events (current_loop (snd (apply_calls (add_done_callback_call c # cs) (set_result v f w)))))
         = map callback (events (current_loop w)) @ callbacks f
     \<and> c \<in> set (callbacks (fst (apply_calls (add_done_callback_call c # cs) (set_result v f w))))"
proof -
  let ?s = "apply_call (add_done_callback_call c) (set_result v f w)"
  have e: "snd ?s = snd (set_result v f w)"
    by (cases "set_result v f w") simp
  have m: "c \<in> set (callbacks (fst ?s))"
    by (cases "set_result v f w") (simp add: add_done_callback_def)
  have "map callback (events (current_loop (snd (set_result v f w)))) =
      map callback (events (current_loop w)) @ callbacks f"
    by (simp add: set_result_def schedule_callbacks_def Let_def callbacks_fold_call_soon)
  with e m show ?thesis
    using apply_calls_no_set_result_env [OF assms, of ?s]
      apply_calls_callbacks_mono [OF assms, of c ?s]
    by (simp add: apply_calls_Cons)
qed

text \<open>C9 at a future with one callback registered before and one after completion.\<close>

theorem late_callback_never_scheduled_witness:
  "\<not> list_ex is_set_result [cancel_call]
   \<and> events (current_loop (snd (apply_calls [add_done_callback_call cb2, cancel_call]
         (set_result (VInt 7) (add_done_callback cb1 create_future) env0))))
       = [\<lparr>callback = cb1, when' = Some 0\<rparr>]
   \<and> callbacks (fst (apply_calls [add_done_callback_call cb2, cancel_call]
         (set_result (VInt 7) (add_done_callback cb1 create_future) env0))) = [cb1, cb2]"
proof -
  have n: "\<not> list_ex is_set_result [cancel_call]"
    by simp
  have e: "events (current_loop (snd (set_result (VInt 7) (add_done_callback cb1 create_future) env0)))
      = [\<lparr>callback = cb1, when' = Some 0\<rparr>]"
    by (simp add: set_result_def schedule_callbacks_def Let_def add_done_callback_def
        create_future_def call_soon_events env0_def)
  have c: "callbacks (fst (apply_calls [add_done_callback_call cb2, cancel_call]
         (set_result (VInt 7) (add_done_callback cb1 create_future) env0))) = [cb1, cb2]"
    by (simp add: apply_calls_def set_result_def Let_def add_done_callback_def
        create_future_def cancel_def)
  show ?thesis
    using late_callback_never_scheduled [OF n, of cb2 "VInt 7" "add_done_callback cb1 create_future" env0]
      n e c
    by simp
qed

text \<open>
  Claim C10. \<open>done()\<close> is true exactly when the status is not SCHEDULED: a cancelled future
  with no result reports the same as a completed one, a new future reports false.
\<close>

theorem done_iff_not_scheduled:
  "Future_done f = (status f \<noteq> SCHEDULED)
   \<and> Future_done (cancel create_future)
   \<and> result (cancel create_future) = VNone
   \<and> Future_done (cancel create_future) = Future_done (fst (set_result v create_future w))
   \<and> \<not> Future_done create_future"
  by (simp add: Future_done_def cancel_def create_future_def set_result_def result_def Let_def)

section \<open>Properties of the loop\<close>

subsection \<open>The loop's operations on a world\<close>

lemma call_soon_world [simp]:
  "futures (call_soon c w) = futures w" "coros (call_soon c w) = coros w"
  by (simp_all add: call_soon_def tick_def append_event_def)

lemma call_later_world [simp]:
  "futures (call_later c t w) = futures w" "coros (call_later c t w) = coros w"
  "clock (call_later c t w) = clock w" "reads (call_later c t w) = reads w"
  "events (current_loop (call_later c t w)) = events (current_loop w) @ [\<lparr>callback = c, when' = t\<rparr>]"
  by (simp_all add: call_later_def append_event_def)

lemma tick_world [simp]:
  "futures (tick w) = futures w" "coros (tick w) = coros w"
  "clock (tick w) = clock w" "reads (tick w) = Suc (reads w)"
  "current_loop (tick w) = current_loop w"
  by (simp_all add: tick_def)

lemma fold_call_soon_world [simp]:
  "futures (fold call_soon cs w) = futures w" "coros (fold call_soon cs w) = coros w"
  by (induction cs arbitrary: w) simp_all

lemma prefix_fold_call_soon:
  "prefix (events (current_loop w)) (events (current_loop (fold call_soon cs w)))"
  by (simp add: events_fold_call_soon)

lemma Future_set_result_world [simp]:
  "coros (Future_set_result f v w) = coros w"
  "clock (Future_set_result f v w) = clock w"
  "length (futures (Future_set_result f v w)) = length (futures w)"
  "reads (Future_set_result f v w) = reads w + length (callbacks (futures w ! f))"
  by (simp_all add: Future_set_result_def set_result_def schedule_callbacks_def Let_def
      clock_fold_call_soon reads_fold_call_soon)

lemma Future_set_result_events:
  "events (current_loop (Future_set_result f v w)) =
     events (current_loop (fold call_soon (callbacks (futures w ! f)) w))"
  by (simp add: Future_set_result_def set_result_def schedule_callbacks_def Let_def)

lemma Future_cancel_world [simp]:
  "coros (Future_cancel f w) = coros w" "clock (Future_cancel f w) = clock w"
  "reads (Future_cancel f w) = reads w" "current_loop (Future_cancel f w) = current_loop w"
  "length (futures (Future_cancel f w)) = length (futures w)"
  by (simp_all add: Future_cancel_def)

lemma Future_add_done_callback_world [simp]:
  "coros (Future_add_done_callback f c w) = coros w"
  "clock (Future_add_done_callback f c w) = clock w"
  "reads (Future_add_done_callback f c w) = reads w"
  "current_loop (Future_add_done_callback f c w) = current_loop w"
  "length (futures (Future_add_done_callback f c w)) = length (futures w)"
  by (simp_all add: Future_add_done_callback_def)

subsection \<open>Calls only append to the registry\<close>

lemma advance_grows:
  "advance g w = (p, w') \<Longrightarrow>
     prefix (events (current_loop w)) (events (current_loop w')) \<and> coros w' = coros w"
proof (induction g arbitrary: w)
  case (CreateFuture k)
  from CreateFuture.IH [OF _ CreateFuture.prems [simplified]] show ?case by simp
next
  case (CallSoon c g)
  from CallSoon.IH [OF CallSoon.prems [simplified]] show ?case
    by (auto simp: call_soon_events dest: append_prefixD)
next
  case (CallLater c t g)
  from CallLater.IH [OF CallLater.prems [simplified]] show ?case
    by (auto dest: append_prefixD)
next
  case (CallLaterAfter c d g)
  from CallLaterAfter.IH [OF CallLaterAfter.prems [simplified]] show ?case
    by (auto dest: append_prefixD)
next
  case (SetResult f v g)
  show ?case
  proof (cases "f < length (futures w)")
    case True
    with SetResult.prems have "advance g (Future_set_result f v w) = (p, w')" by simp
    from SetResult.IH [OF this] show ?thesis
      using prefix_fold_call_soon [of w "callbacks (futures w ! f)"]
      by (auto simp: Future_set_result_events)
  next
    case False
    with SetResult.prems show ?thesis by simp
  qed
next
  case (Cancel f g)
  then show ?case by (cases "f < length (futures w)") force+
next
  case (AddDoneCallback f c g)
  then show ?case by (cases "f < length (futures w)") force+
next
  case (YieldFrom f k)
  then show ?case
    by (cases "f < length (futures w)"; cases "Future_iter f (futures w ! f)") force+
next
  case (GetResult f k)
  then show ?case by (cases "f < length (futures w)") force+
qed auto

lemma resume_grows:
  "resume self g w = (out, w') \<Longrightarrow> prefix (events (current_loop w)) (events (current_loop w'))"
  by (cases "advance g w"; cases "fst (advance g w)")
     (auto simp: resume_def dest: advance_grows)

lemma send_grows:
  "send self v w = (out, w') \<Longrightarrow> prefix (events (current_loop w)) (events (current_loop w'))"
  by (auto simp: send_def split: if_splits generator.splits dest: resume_grows)

lemma call_grows:
  "call c w = (out, w') \<Longrightarrow> prefix (events (current_loop w)) (events (current_loop w'))"
  using prefix_fold_call_soon
  by (auto simp: call_def Future_set_result_events
      split: list.splits callable.splits if_splits dest: send_grows)

lemma del_first_event_events [simp]:
  "events (current_loop (del_first_event w)) = tl (events (current_loop w))"
  by (simp add: del_first_event_def)

lemma sort_events_events [simp]:
  "events (current_loop (sort_events w)) = sort_key (\<lambda>e. the (when' e)) (events (current_loop w))"
  by (simp add: sort_events_def)

text \<open>The shape of one iteration that runs an event.\<close>

lemma iteration_Ran:
  assumes "iteration w results = Ran e w' results'"
  shows "\<not> list_ex (\<lambda>x. when' x = None) (events (current_loop w))
     \<and> (\<exists>rest new. sort_key (\<lambda>x. the (when' x)) (events (current_loop w)) = e # rest
           \<and> events (current_loop w') = rest @ new
           \<and> the (when' e) \<le> clock w (reads w))"
proof -
  let ?w2 = "tick (sort_events w)"
  from assms have n: "\<not> list_ex (\<lambda>x. when' x = None) (events (current_loop w))"
    by (auto simp: iteration_def split: if_splits)
  from assms n obtain rest where s: "events (current_loop ?w2) = e # rest"
    by (auto simp: iteration_def Let_def split: list.splits if_splits prod.splits option.splits)
  from assms n s have due: "the (when' e) \<le> clock w (reads w)"
    by (auto simp: iteration_def Let_def sort_events_def split: if_splits)
  obtain out w3 where c: "call (callback e) ?w2 = (out, w3)"
    by (cases "call (callback e) ?w2")
  from call_grows [OF c] s obtain new where w3: "events (current_loop w3) = (e # rest) @ new"
    by (auto simp: prefix_def)
  from assms n s due c w3 have "events (current_loop w') = rest @ new"
    by (auto simp: iteration_def Let_def sort_events_def split: if_splits option.splits)
  with n s due show ?thesis by auto
qed

lemma iteration_Waited:
  assumes "iteration w results = Waited w'"
  shows "\<not> list_ex (\<lambda>x. when' x = None) (events (current_loop w))
     \<and> events (current_loop w') = sort_key (\<lambda>x. the (when' x)) (events (current_loop w))
     \<and> clock w' = clock w \<and> coros w' = coros w"
  using assms
  by (auto simp: iteration_def Let_def sort_events_def
      split: if_splits list.splits prod.splits option.splits)

lemma filter_when_sort:
  assumes "\<not> list_ex (\<lambda>x. when' x = None) xs"
  shows "filter (\<lambda>e. when' e = t) (sort_key (\<lambda>x. the (when' x)) xs) = filter (\<lambda>e. when' e = t) xs"
proof (cases t)
  case None
  with assms show ?thesis
    by (auto simp: list_ex_iff filter_empty_conv)
next
  case (Some u)
  have "\<And>ys. set ys \<subseteq> set xs \<Longrightarrow>
      filter (\<lambda>e. when' e = t) ys = filter (\<lambda>e. the (when' e) = u) ys"
    using assms Some by (intro filter_cong) (auto simp: list_ex_iff)
  from this [of xs] this [of "sort_key (\<lambda>x. the (when' x)) xs"] show ?thesis
    by (simp add: sort_key_stable)
qed

lemma executed_prefix_scheduled:
  "prefix (filter (\<lambda>e. when' e = t) (executed n w results))
     (filter (\<lambda>e. when' e = t) (events (current_loop w) @ scheduled n w results))"
proof (induction n arbitrary: w results)
  case 0
  show ?case by simp
next
  case (Suc n)
  show ?case
  proof (cases "events (current_loop w) = []")
    case True
    then show ?thesis by simp
  next
    case False
    show ?thesis
    proof (cases "iteration w results")
      case (Aborted x)
      with False show ?thesis by simp
    next
      case (Waited w')
      from iteration_Waited [OF Waited] Suc.IH [of w' results] False Waited show ?thesis
        by (simp add: filter_when_sort)
    next
      case (Ran e w' results')
      from iteration_Ran [OF Ran] obtain rest new where
        n: "\<not> list_ex (\<lambda>x. when' x = None) (events (current_loop w))" and
        s: "sort_key (\<lambda>x. the (when' x)) (events (current_loop w)) = e # rest" and
        w': "events (current_loop w') = rest @ new"
        by blast
      have "length (e # rest) = length (events (current_loop w))"
        unfolding s [symmetric] by simp
      then have d: "drop (length (events (current_loop w)) - 1) (events (current_loop w')) = new"
        by (simp add: w')
      have f: "filter (\<lambda>e. when' e = t) (events (current_loop w)) = filter (\<lambda>e. when' e = t) (e # rest)"
        using filter_when_sort [OF n, of t] by (simp add: s)
      have sch: "scheduled (Suc n) w results = new @ scheduled n w' results'"
        using False Ran d by simp
      have ex: "executed (Suc n) w results = e # executed n w' results'"
        using False Ran by simp
      from Suc.IH [of w' results'] show ?thesis
        unfolding sch ex by (simp add: f w')
    qed
  qed
qed

subsection \<open>Punctual generators keep the registry timely\<close>

lemma timely_tick: "timely lo w \<Longrightarrow> timely lo (tick w)"
  by (auto simp: timely_def mono_def intro: order_trans)

lemma timely_call_soon: "timely lo w \<Longrightarrow> timely lo (call_soon c w)"
  by (auto simp: timely_def call_soon_events call_soon_reads call_soon_clock late_def mono_def
      intro: order_trans)

lemma timely_fold_call_soon: "timely lo w \<Longrightarrow> timely lo (fold call_soon cs w)"
  by (induction cs arbitrary: w) (simp_all add: timely_call_soon)

lemma timely_call_later_after:
  "timely lo w \<Longrightarrow> 0 \<le> d \<Longrightarrow> timely lo (call_later c (Some (now w + d)) (tick w))"
  by (auto simp: timely_def late_def now_def mono_def intro: order_trans)

lemma timely_futures [simp]: "timely lo (w\<lparr>futures := fs\<rparr>) = timely lo w"
  by (simp add: timely_def)

lemma timely_coros [simp]: "timely lo (w\<lparr>coros := gs\<rparr>) = timely lo w"
  by (simp add: timely_def)

lemma timely_Future_set_result: "timely lo w \<Longrightarrow> timely lo (Future_set_result f v w)"
  using timely_fold_call_soon [of lo w "callbacks (futures w ! f)"]
  by (simp add: Future_set_result_def set_result_def schedule_callbacks_def Let_def)

lemma timely_Future_cancel: "timely lo w \<Longrightarrow> timely lo (Future_cancel f w)"
  by (simp add: Future_cancel_def)

lemma timely_Future_add_done_callback: "timely lo w \<Longrightarrow> timely lo (Future_add_done_callback f c w)"
  by (simp add: Future_add_done_callback_def)

lemma advance_timely:
  "punctual g \<Longrightarrow> timely lo w \<Longrightarrow> advance g w = (p, w')
     \<Longrightarrow> timely lo w' \<and> punctual_pause p"
proof (induction g arbitrary: w)
  case (CreateFuture k)
  from CreateFuture.IH [OF _ _ _ CreateFuture.prems(3) [simplified]] CreateFuture.prems(1,2)
  show ?case by simp
next
  case (CallSoon c g)
  from CallSoon.IH [OF _ timely_call_soon [OF CallSoon.prems(2)] CallSoon.prems(3) [simplified]]
    CallSoon.prems(1)
  show ?case by simp
next
  case (CallLater c t g)
  then show ?case by simp
next
  case (CallLaterAfter c d g)
  from CallLaterAfter.prems(1) have d: "0 \<le> d" and g: "punctual g" by simp_all
  from CallLaterAfter.IH [OF g timely_call_later_after [OF CallLaterAfter.prems(2) d]
      CallLaterAfter.prems(3) [simplified]]
  show ?case .
next
  case (SetResult f v g)
  then show ?case
    by (cases "f < length (futures w)") (auto dest: timely_Future_set_result)
next
  case (Cancel f g)
  then show ?case
    by (cases "f < length (futures w)") (auto dest: timely_Future_cancel)
next
  case (AddDoneCallback f c g)
  then show ?case
    by (cases "f < length (futures w)") (auto dest: timely_Future_add_done_callback)
next
  case (YieldFrom f k)
  then show ?case
    by (cases "f < length (futures w)"; cases "Future_iter f (futures w ! f)") force+
next
  case (GetResult f k)
  then show ?case by (cases "f < length (futures w)") force+
qed auto

lemma list_all_update: "list_all P xs \<Longrightarrow> P x \<Longrightarrow> list_all P (xs[i := x])"
  by (auto simp: list_all_iff dest: set_update_subset_insert [THEN subsetD])

lemma resume_timely:
  assumes "punctual g" "timely lo w" "list_all punctual_generator (coros w)"
    and "resume self g w = (out, w')"
  shows "timely lo w' \<and> list_all punctual_generator (coros w')"
proof -
  obtain p w1 where a: "advance g w = (p, w1)"
    by (cases "advance g w")
  from advance_timely [OF assms(1,2) a] advance_grows [OF a] assms(3)
  have "timely lo w1" "punctual_pause p" "list_all punctual_generator (coros w1)"
    by simp_all
  with assms(4) a show ?thesis
    by (cases p) (auto simp: resume_def intro!: list_all_update)
qed

lemma send_timely:
  assumes "timely lo w" "list_all punctual_generator (coros w)" "send self v w = (out, w')"
  shows "timely lo w' \<and> list_all punctual_generator (coros w')"
proof (cases "self < length (coros w)")
  case False
  with assms show ?thesis by (simp add: send_def)
next
  case True
  with assms(2) have p: "punctual_generator (coros w ! self)"
    by (simp add: list_all_length)
  show ?thesis
  proof (cases "coros w ! self")
    case (Created g)
    with p assms True show ?thesis
      by (auto simp: send_def split: if_splits dest: resume_timely)
  next
    case (Suspended k)
    with p have "punctual (k v)" by simp
    from resume_timely [OF this assms(1,2)] assms(3) True Suspended show ?thesis
      by (simp add: send_def)
  next
    case Exhausted
    with assms True show ?thesis by (simp add: send_def)
  qed
qed

lemma call_timely:
  assumes "timely lo w" "list_all punctual_generator (coros w)" "call c w = (out, w')"
  shows "timely lo w' \<and> list_all punctual_generator (coros w')"
  using assms
  by (auto simp: call_def split: list.splits callable.splits if_splits
      dest: send_timely timely_Future_set_result)

text \<open>One iteration on a world with punctual generators and a clock that never goes back.\<close>

lemma timely_del_first_event: "timely lo w \<Longrightarrow> timely lo (del_first_event w)"
  by (cases "events (current_loop w)") (simp_all add: timely_def del_first_event_def)

lemma del_first_event_world [simp]:
  "coros (del_first_event w) = coros w" "clock (del_first_event w) = clock w"
  by (simp_all add: del_first_event_def)

lemma iteration_Ran_timely:
  assumes "iteration w results = Ran e w' results'"
    and "mono (clock w)" "list_all punctual_generator (coros w)"
  shows "timely (the (when' e)) w' \<and> list_all punctual_generator (coros w')"
proof -
  let ?w2 = "tick (sort_events w)"
  let ?lo = "the (when' e)"
  from iteration_Ran [OF assms(1)] obtain rest where
    n: "\<not> list_ex (\<lambda>x. when' x = None) (events (current_loop w))" and
    s: "sort_key (\<lambda>x. the (when' x)) (events (current_loop w)) = e # rest" and
    due: "?lo \<le> clock w (reads w)"
    by blast
  have "sorted (map (\<lambda>x. the (when' x)) (e # rest))"
    unfolding s [symmetric] by (rule sorted_sort_key)
  then have le: "\<forall>x\<in>set (e # rest). ?lo \<le> the (when' x)"
    by simp
  have "set (e # rest) = set (events (current_loop w))"
    unfolding s [symmetric] by simp
  with n have some: "\<forall>x\<in>set (e # rest). when' x \<noteq> None"
    by (auto simp: list_ex_iff)
  from le some have "list_all (late ?lo) (e # rest)"
    unfolding list_all_iff late_def by (auto split: option.splits)
  moreover have "?lo \<le> clock w (Suc (reads w))"
    using due assms(2) by (auto simp: mono_def intro: order_trans [OF _ monoD])
  ultimately have t2: "timely ?lo ?w2"
    using assms(2) by (simp add: timely_def s sort_events_def tick_def)
  have p2: "list_all punctual_generator (coros ?w2)"
    using assms(3) by (simp add: sort_events_def)
  have e2: "events (current_loop ?w2) = e # rest"
    by (simp add: s)
  obtain out w3 where c: "call (callback e) ?w2 = (out, w3)"
    by (cases "call (callback e) ?w2")
  from call_timely [OF t2 p2 c] have t3: "timely ?lo w3" and p3: "list_all punctual_generator (coros w3)"
    by simp_all
  from assms(1) n e2 due c
  have "w' = del_first_event w3
      \<or> (\<exists>f cb. w' = del_first_event (Future_add_done_callback f cb w3))"
    by (auto simp: iteration_def Let_def sort_events_def split: if_splits option.splits)
  with t3 p3 show ?thesis
    by (auto intro: timely_del_first_event timely_Future_add_done_callback)
qed

lemma late_trans: "lo \<le> lo' \<Longrightarrow> late lo' e \<Longrightarrow> late lo e"
  by (auto simp: late_def split: option.splits)

lemma executed_sorted:
  assumes "mono (clock w)" "list_all punctual_generator (coros w)"
  shows "sorted (map (\<lambda>e. the (when' e)) (executed n w results))
     \<and> (\<forall>lo. list_all (late lo) (events (current_loop w))
            \<longrightarrow> list_all (late lo) (executed n w results))"
  using assms
proof (induction n arbitrary: w results)
  case 0
  show ?case by simp
next
  case (Suc n)
  show ?case
  proof (cases "events (current_loop w) = []")
    case True
    then show ?thesis by simp
  next
    case False
    show ?thesis
    proof (cases "iteration w results")
      case (Aborted x)
      with False show ?thesis by simp
    next
      case (Waited w')
      from iteration_Waited [OF Waited] have
        w': "events (current_loop w') = sort_key (\<lambda>x. the (when' x)) (events (current_loop w))"
        "clock w' = clock w" "coros w' = coros w"
        by simp_all
      from Suc.IH [of w' results] Suc.prems w' False Waited show ?thesis
        by (simp add: list_all_iff)
    next
      case (Ran e w' results')
      let ?lo = "the (when' e)"
      from iteration_Ran_timely [OF Ran Suc.prems]
      have t: "timely ?lo w'" and p: "list_all punctual_generator (coros w')"
        by simp_all
      from t have m: "mono (clock w')" and l: "list_all (late ?lo) (events (current_loop w'))"
        by (simp_all add: timely_def)
      from Suc.IH [OF m p, of results'] l
      have s: "sorted (map (\<lambda>e. the (when' e)) (executed n w' results'))"
        and a: "list_all (late ?lo) (executed n w' results')"
        by simp_all
      from a have ge: "\<forall>x\<in>set (executed n w' results'). ?lo \<le> the (when' x)"
        by (auto simp: list_all_iff late_def split: option.splits)
      from iteration_Ran [OF Ran] obtain rest where
        srt: "sort_key (\<lambda>x. the (when' x)) (events (current_loop w)) = e # rest"
        by blast
      have "set (e # rest) = set (events (current_loop w))"
        unfolding srt [symmetric] by simp
      then have mem: "e \<in> set (events (current_loop w))"
        by auto
      have ex: "executed (Suc n) w results = e # executed n w' results'"
        using False Ran by simp
      have "list_all (late lo) (e # executed n w' results')"
        if "list_all (late lo) (events (current_loop w))" for lo
      proof -
        from that mem have le: "late lo e" by (simp add: list_all_iff)
        then have "lo \<le> ?lo" by (auto simp: late_def split: option.splits)
        with a le show ?thesis
          by (auto simp: list_all_iff intro: late_trans)
      qed
      with s ge show ?thesis
        unfolding ex by simp
    qed
  qed
qed

lemma executed_first_earliest:
  "executed n w results \<noteq> [] \<Longrightarrow>
     hd (executed n w results) \<in> set (events (current_loop w))
     \<and> (\<forall>x\<in>set (events (current_loop w)).
           the (when' (hd (executed n w results))) \<le> the (when' x))"
proof (induction n arbitrary: w results)
  case 0
  then show ?case by simp
next
  case (Suc n)
  from Suc.prems have ne: "events (current_loop w) \<noteq> []"
    by (auto split: if_splits)
  show ?case
  proof (cases "iteration w results")
    case (Aborted x)
    with Suc.prems ne show ?thesis by simp
  next
    case (Waited w')
    from iteration_Waited [OF Waited] have
      "set (events (current_loop w')) = set (events (current_loop w))"
      by simp
    with Suc.IH [of w' results] Suc.prems ne Waited show ?thesis
      by simp
  next
    case (Ran e w' results')
    from iteration_Ran [OF Ran] obtain rest where
      srt: "sort_key (\<lambda>x. the (when' x)) (events (current_loop w)) = e # rest"
      by blast
    have "sorted (map (\<lambda>x. the (when' x)) (e # rest))"
      unfolding srt [symmetric] by (rule sorted_sort_key)
    moreover have "set (e # rest) = set (events (current_loop w))"
      unfolding srt [symmetric] by simp
    ultimately show ?thesis
      using ne Ran by auto
  qed
qed

lemma executed_when_defined: "list_all (\<lambda>e. when' e \<noteq> None) (executed n w results)"
proof (induction n arbitrary: w results)
  case 0
  show ?case by simp
next
  case (Suc n)
  show ?case
  proof (cases "iteration w results")
    case (Ran e w' results')
    from iteration_Ran [OF Ran] obtain rest where
      n: "\<not> list_ex (\<lambda>x. when' x = None) (events (current_loop w))" and
      srt: "sort_key (\<lambda>x. the (when' x)) (events (current_loop w)) = e # rest"
      by blast
    have "set (e # rest) = set (events (current_loop w))"
      unfolding srt [symmetric] by simp
    with n have "when' e \<noteq> None"
      by (auto simp: list_ex_iff)
    with Suc.IH [of w' results'] Ran show ?thesis by simp
  qed (use Suc.IH in simp_all)
qed

text \<open>When the loop has ended, every event that was scheduled has run.\<close>

lemma completes_0: "completes 0 w results = (events (current_loop w) = [])"
  by (simp add: completes_def)

lemma completes_Suc:
  "completes (Suc n) w results =
     (events (current_loop w) = [] \<or>
       (case iteration w results of
          Aborted e \<Rightarrow> False
        | Waited w' \<Rightarrow> completes n w' results
        | Ran e w' results' \<Rightarrow> completes n w' results'))"
  by (simp add: completes_def split: step.splits)

lemma executed_all_scheduled:
  "completes n w results \<Longrightarrow>
     filter (\<lambda>e. when' e = t) (executed n w results) =
     filter (\<lambda>e. when' e = t) (events (current_loop w) @ scheduled n w results)"
proof (induction n arbitrary: w results)
  case 0
  then show ?case by (simp add: completes_0)
next
  case (Suc n)
  show ?case
  proof (cases "events (current_loop w) = []")
    case True
    then show ?thesis by simp
  next
    case False
    show ?thesis
    proof (cases "iteration w results")
      case (Aborted x)
      with False Suc.prems show ?thesis by (simp add: completes_Suc)
    next
      case (Waited w')
      with False Suc.prems have "completes n w' results"
        by (simp add: completes_Suc)
      from Suc.IH [OF this] iteration_Waited [OF Waited] False Waited show ?thesis
        by (simp add: filter_when_sort)
    next
      case (Ran e w' results')
      with False Suc.prems have c: "completes n w' results'"
        by (simp add: completes_Suc)
      from iteration_Ran [OF Ran] obtain rest new where
        n: "\<not> list_ex (\<lambda>x. when' x = None) (events (current_loop w))" and
        s: "sort_key (\<lambda>x. the (when' x)) (events (current_loop w)) = e # rest" and
        w': "events (current_loop w') = rest @ new"
        by blast
      have "length (e # rest) = length (events (current_loop w))"
        unfolding s [symmetric] by simp
      then have d: "drop (length (events (current_loop w)) - 1) (events (current_loop w')) = new"
        by (simp add: w')
      have f: "filter (\<lambda>e. when' e = t) (events (current_loop w)) = filter (\<lambda>e. when' e = t) (e # rest)"
        using filter_when_sort [OF n, of t] by (simp add: s)
      have sch: "scheduled (Suc n) w results = new @ scheduled n w' results'"
        using False Ran d by simp
      have ex: "executed (Suc n) w results = e # executed n w' results'"
        using False Ran by simp
      from Suc.IH [OF c] show ?thesis
        unfolding sch ex by (simp add: f w')
    qed
  qed
qed

section \<open>Properties of run\<close>

lemma seed_world [simp]:
  "clock (seed cs w) = clock w" "coros (seed cs w) = coros w" "futures (seed cs w) = futures w"
  by (induction cs arbitrary: w) (simp_all add: seed_def call_soon_clock)

text \<open>
  Claim C2 as stated fails: \<open>run()\<close> with no computation returns \<open>None\<close>, not an empty list.
\<close>

theorem run_nothing_counterexample:
  "run 0 [] (world0 []) = Some (Inr (ReturnsNone, world0 []))
   \<and> run 0 [] (world0 []) \<noteq> Some (Inr (ReturnsList [], world0 []))"
  by (simp add: run_def)

text \<open>
  Claim C2, amended. \<open>run\<close> with no computation returns at once, whatever the fuel, with the
  value \<open>None\<close> and the world unchanged: no event is added and the clock is not read.
\<close>

theorem run_nothing_returns_None:
  "run fuel [] w = Some (Inr (ReturnsNone, w))"
  by (simp add: run_def)

text \<open>The results list after an iteration that ran an event: only \<open>None\<close> is ever appended.\<close>

lemma iteration_results:
  assumes "iteration w results = Ran e w' results'"
  shows "results' =
     (if value_of (fst (call (callback e) (tick (sort_events w)))) = VNone
      then results @ [VNone] else results)"
proof -
  from iteration_Ran [OF assms] obtain rest where
    n: "\<not> list_ex (\<lambda>x. when' x = None) (events (current_loop w))" and
    s: "sort_key (\<lambda>x. the (when' x)) (events (current_loop w)) = e # rest"
    by blast
  obtain out w3 where c: "call (callback e) (tick (sort_events w)) = (out, w3)"
    by (cases "call (callback e) (tick (sort_events w))")
  from assms n s c show ?thesis
    by (cases "value_of out")
       (auto simp: iteration_def Let_def split: if_splits option.splits)
qed

text \<open>
  Claim C3 at the generator of \<open>def g(): yield 5; return 6\<close>: the first event's callback
  \<open>g.send(None)\<close> returns the plain value 5, and \<open>run(g)\<close> returns the empty list.
\<close>

theorem run_drops_plain_value:
  "map_option (map_sum id fst) (run 20 [0] yields_5) = Some (Inr (ReturnsList []))
   \<and> fst (call \<lparr>fn = coro_send 0, args = [VNone]\<rparr> (tick (sort_events (seed [0] yields_5))))
       = Returned (VInt 5)"
  by code_simp

text \<open>
  Claim C6 as stated fails when an event is enqueued for a time before an event that already
  ran: in \<open>run(sleep(-10))\<close> the events run at the times 0, -8, 4, and a generator calling
  \<open>call_later\<close> with the time -5 has its event run after the event of time 0.
\<close>

theorem past_event_runs_late_counterexample:
  "map when' (executed 20 (seed [0] (world0 [Created (sleep (- 10) VNone)])) [])
     = [Some 0, Some (- 8), Some 4]
   \<and> map when' (executed 20 (seed [0] (world0
        [Created (CallLater \<lparr>fn = coro_send 1, args = [VNone]\<rparr> (Some (- 5)) (Return VNone)),
         Created (Return VNone)])) [])
     = [Some 0, Some (- 5)]"
  by code_simp

text \<open>
  Claim C6, amended. For every time \<open>t\<close>, the events of time \<open>t\<close> that the loop has run are,
  in the order in which they ran, an initial part of the events of time \<open>t\<close> in the order in
  which they were scheduled (those pending at the start, then those enqueued while draining),
  and all of them once the loop has ended.
  The first event run is one with the earliest time among the pending ones, and every event
  run has a time. When the clock never goes back and all generators are punctual, the events
  run in non-decreasing order of their times.
\<close>

theorem run_executes_earliest_first:
  "prefix (filter (\<lambda>e. when' e = t) (executed n w results))
      (filter (\<lambda>e. when' e = t) (events (current_loop w) @ scheduled n w results))
   \<and> (completes n w results \<longrightarrow>
        filter (\<lambda>e. when' e = t) (executed n w results) =
        filter (\<lambda>e. when' e = t) (events (current_loop w) @ scheduled n w results))
   \<and> (executed n w results \<noteq> [] \<longrightarrow>
        hd (executed n w results) \<in> set (events (current_loop w))
        \<and> (\<forall>x\<in>set (events (current_loop w)).
              the (when' (hd (executed n w results))) \<le> the (when' x)))
   \<and> list_all (\<lambda>e. when' e \<noteq> None) (executed n w results)
   \<and> (mono (clock w) \<and> list_all punctual_generator (coros w) \<longrightarrow>
        sorted (map (\<lambda>e. the (when' e)) (executed n w results)))"
  using executed_prefix_scheduled [of t n w results] executed_first_earliest [of n w results]
    executed_when_defined [of n w results] executed_sorted [of w n results]
    executed_all_scheduled [of n w results t]
  by blast

text \<open>C6 amended, at \<open>run(sleep(5), sleep(2), sleep(2, 4))\<close>: two events run at time 10.\<close>

theorem run_executes_earliest_first_witness:
  "mono (clock three_sleeps) \<and> list_all punctual_generator (coros three_sleeps)
   \<and> completes 20 three_sleeps []
   \<and> filter (\<lambda>e. when' e = Some 10) (executed 20 three_sleeps []) =
       filter (\<lambda>e. when' e = Some 10) (events (current_loop three_sleeps) @ scheduled 20 three_sleeps [])
   \<and> executed 20 three_sleeps [] \<noteq> []
   \<and> hd (executed 20 three_sleeps []) \<in> set (events (current_loop three_sleeps))
   \<and> sorted (map (\<lambda>e. the (when' e)) (executed 20 three_sleeps []))
   \<and> map when' (executed 20 three_sleeps []) =
       [Some 0, Some 1, Some 2, Some 8, Some 9, Some 10, Some 10, Some 12, Some 14]
   \<and> map when' (events (current_loop three_sleeps) @ scheduled 20 three_sleeps []) =
       [Some 0, Some 1, Some 2, Some 9, Some 8, Some 10, Some 10, Some 12, Some 14]"
proof -
  have m: "mono (clock three_sleeps)"
    by (simp add: three_sleeps_def world0_def mono_def)
  have p: "list_all punctual_generator (coros three_sleeps)"
    by (simp add: three_sleeps_def world0_def sleep_def)
  have e: "map when' (executed 20 three_sleeps []) =
       [Some 0, Some 1, Some 2, Some 8, Some 9, Some 10, Some 10, Some 12, Some 14]"
    by code_simp
  have s: "map when' (events (current_loop three_sleeps) @ scheduled 20 three_sleeps []) =
       [Some 0, Some 1, Some 2, Some 9, Some 8, Some 10, Some 10, Some 12, Some 14]"
    by code_simp
  have c: "completes 20 three_sleeps []"
    by code_simp
  from e have ne: "executed 20 three_sleeps [] \<noteq> []"
    by auto
  show ?thesis
    using run_executes_earliest_first [of "Some 10" 20 three_sleeps "[]"] m p e s c ne
    by blast
qed

end
